theory Spec2Isabelle
  imports Main "HOL-Library.Word"
begin

unbundle bit_operations_syntax

section \<open>Machine types\<close>

text \<open>
  The header \<^verbatim>\<open>esp23_fast_timestamp.h\<close> works on \<^verbatim>\<open>uint32_t\<close> and \<^verbatim>\<open>uint64_t\<close>.
  Both are words: addition, subtraction and multiplication wrap around, \<open>div\<close> is the
  unsigned division, \<open>unat\<close> reads the unsigned value and \<open>sint\<close> the two's complement one.
\<close>

type_synonym u32 = "32 word"
type_synonym u64 = "64 word"

section \<open>Low-level cycle counter read\<close>


text \<open>
  RISC-V variant (\<^verbatim>\<open>fast_counter_t = uint64_t\<close>): the 64-bit counter is read through two
  32-bit registers, \<^verbatim>\<open>mcycleh\<close> (bits 63..32) and \<^verbatim>\<open>mcycle\<close> (bits 31..0).
\<close>

definition csrr_mcycleh :: "nat \<Rightarrow> u32" where
  "csrr_mcycleh count = of_nat (count div 2 ^ 32)"

definition csrr_mcycle :: "nat \<Rightarrow> u32" where
  "csrr_mcycle count = of_nat count"

text \<open>
  The counter goes on counting between two \<^verbatim>\<open>csrr\<close> instructions, so every read sees a
  state of its own. A register history \<open>h\<close> gives the cycle count at the instant of each
  successive read: \<open>h n\<close> is what the \<open>n\<close>-th read observes. \<open>fast_rdcycle64 h i\<close> is the
  \<^verbatim>\<open>do { hi1; lo; hi2 } while (hi1 != hi2)\<close> loop whose first read is read number \<open>i\<close>. The
  source puts no bound on the number of iterations, so the function is partial: \<open>None\<close>
  is the loop that never leaves.
\<close>

partial_function (option) fast_rdcycle64 :: "(nat \<Rightarrow> nat) \<Rightarrow> nat \<Rightarrow> u64 option" where
  "fast_rdcycle64 h i =
     (let hi1 = csrr_mcycleh (h i);
          lo = csrr_mcycle (h (i + 1));
          hi2 = csrr_mcycleh (h (i + 2))
      in if hi1 \<noteq> hi2 then fast_rdcycle64 h (i + 3)
         else Some (push_bit 32 (ucast hi2) OR ucast lo))"

section \<open>Timestamps\<close>

text \<open>
  \<^verbatim>\<open>struct Timestamp { fast_counter_t ticks; }\<close>. The counter type is the parameter of the
  record; the two builds use it at \<open>u32\<close> and at \<open>u64\<close>.
\<close>

record 'c Timestamp =
  ticks :: 'c



section \<open>Wrap-safe arithmetic\<close>

text \<open>
  \<^verbatim>\<open>if constexpr (sizeof(fast_counter_t) == 4)\<close> selects the branch by the width of the
  counter type, here \<open>LENGTH('a) = 32\<close>. In the 32-bit branch the difference is computed
  in \<^verbatim>\<open>uint32_t\<close> and cast to \<^verbatim>\<open>int32_t\<close>; the other branch compares the unsigned values.
\<close>

definition before :: "'a::len word Timestamp \<Rightarrow> 'a word Timestamp \<Rightarrow> bool" where
  "before a b =
     (if LENGTH('a) = 32 then sint (ucast (ticks a - ticks b) :: u32) < 0
      else ticks a < ticks b)"

definition cycles_between :: "'a::len word Timestamp \<Rightarrow> 'a word Timestamp \<Rightarrow> u64" where
  "cycles_between a b =
     (if LENGTH('a) = 32 then ucast (ucast (ticks b - ticks a) :: u32)
      else ucast (ticks b - ticks a))"

section \<open>Frequency configuration and division-based conversions\<close>

text \<open>
  \<^verbatim>\<open>FASTTIME_FREQ_HZ\<close> is a macro of the build: \<^verbatim>\<open>F_CPU\<close> when that is defined, a
  \<^verbatim>\<open>-DFASTTIME_FREQ_HZ=...\<close> override, or the fallback below. The conversions take it as
  their first argument.
\<close>

definition FASTTIME_FREQ_HZ :: u64 where
  "FASTTIME_FREQ_HZ = 240000000"

text \<open>
  C++ leaves a division by zero undefined. The divisor \<^verbatim>\<open>FASTTIME_FREQ_HZ / 1000000ULL\<close> is
  zero for a frequency below 1 MHz, so the model returns \<open>None\<close> there.
\<close>

definition cycles_to_us :: "u64 \<Rightarrow> u64 \<Rightarrow> u64 option" where
  "cycles_to_us freq cycles =
     (if freq div 1000000 = 0 then None else Some (cycles div (freq div 1000000)))"

definition cycles_to_ms :: "u64 \<Rightarrow> u64 \<Rightarrow> u64 option" where
  "cycles_to_ms freq cycles =
     (if freq div 1000 = 0 then None else Some (cycles div (freq div 1000)))"





section \<open>Fixed-point conversion helper\<close>

text \<open>
  \<^verbatim>\<open>struct UsConverter { uint64_t k; uint32_t shift; }\<close>.

  \<^verbatim>\<open>make\<close> computes \<^verbatim>\<open>((1000000ULL << q) + (freq_hz / 2ULL)) / freq_hz\<close> in \<^verbatim>\<open>uint64_t\<close>: the
  shift and the addition wrap modulo \<open>2 ^ 64\<close>, and \<open>freq_hz = 0\<close> is a division by zero,
  \<open>None\<close> in the model. \<^verbatim>\<open>to_us\<close> computes \<^verbatim>\<open>(cycles * k) >> shift\<close>, again in \<^verbatim>\<open>uint64_t\<close>.
  The shifts are \<open>push_bit\<close> and \<open>drop_bit\<close> on 64-bit words, for every count: the
  bits moved past either end are lost, so a count of 64 or more leaves 0.
\<close>

record UsConverter =
  k :: u64
  shift :: u32

definition make :: "u64 \<Rightarrow> u32 \<Rightarrow> UsConverter option" where
  "make freq_hz q =
     (if freq_hz = 0 then None
      else Some \<lparr>k = (push_bit (unat q) 1000000 + freq_hz div 2) div freq_hz, shift = q\<rparr>)"

definition to_us :: "UsConverter \<Rightarrow> u64 \<Rightarrow> u64" where
  "to_us c cycles = drop_bit (unat (shift c)) (cycles * k c)"

section \<open>Facts about words\<close>

lemma unat_ucast_up:
  "LENGTH('a::len) \<le> LENGTH('b::len) \<Longrightarrow> unat (ucast (w :: 'a word) :: 'b word) = unat w"
  by (simp add: unsigned_ucast_eq take_bit_nat_eq_self_iff)
     (meson le_trans less_le_trans unsigned_less power_increasing one_le_numeral not_less)

lemma unat_of_nat_half:
  assumes "d < 2 ^ (LENGTH('a::len) - 1)"
  shows "unat (of_nat d :: 'a word) = d"
proof -
  have "(2::nat) ^ (LENGTH('a) - 1) \<le> 2 ^ LENGTH('a)"
    by (rule power_increasing) simp_all
  with assms have "d < 2 ^ LENGTH('a)" by (rule less_le_trans)
  then show ?thesis by (simp add: unat_of_nat)
qed

text \<open>The sign of the two's complement reading is the top bit of the unsigned one.\<close>

lemma sint_neg_iff_unat:
  fixes w :: "'a::len word"
  shows "sint w < 0 \<longleftrightarrow> 2 ^ (LENGTH('a) - 1) \<le> unat w"
proof -
  let ?n = "LENGTH('a) - 1"
  have len: "LENGTH('a) = Suc ?n" by simp
  have "(2::nat) ^ LENGTH('a) = 2 * 2 ^ ?n"
    by (metis len power_Suc)
  moreover have "unat w < 2 ^ LENGTH('a)" by (rule unsigned_less)
  ultimately have lt: "unat w < 2 * 2 ^ ?n" by simp
  have "sint w < 0 \<longleftrightarrow> bit w ?n"
    using bit_last_iff [of w] by simp
  also have "\<dots> \<longleftrightarrow> bit (unat w) ?n"
    by (simp add: bit_unsigned_iff)
  also have "\<dots> \<longleftrightarrow> odd (unat w div 2 ^ ?n)"
    by (rule bit_iff_odd)
  also have "\<dots> \<longleftrightarrow> 2 ^ ?n \<le> unat w"
  proof (cases "2 ^ ?n \<le> unat w")
    case True
    with lt have "unat w div 2 ^ ?n = 1"
      by (intro div_nat_eqI) simp_all
    with True show ?thesis by simp
  next
    case False
    then have "unat w div 2 ^ ?n = 0" by simp
    with False show ?thesis by simp
  qed
  finally show ?thesis .
qed

lemma unat_minus_of_nat32:
  assumes "0 < d" and "d < 2 ^ 31"
  shows "unat (- (of_nat d :: u32)) = 2 ^ 32 - d"
proof -
  from assms(2) have "(2 ^ 32 - d) + d = (2::nat) ^ 32" by simp
  then have "(of_nat (2 ^ 32 - d) :: u32) + of_nat d = of_nat (2 ^ 32)"
    by (simp only: flip: of_nat_add)
  also have "\<dots> = 0" by simp
  finally have "- (of_nat d :: u32) = of_nat (2 ^ 32 - d)"
    by (simp add: eq_neg_iff_add_eq_0 [symmetric])
  moreover from assms(1) have "unat (of_nat (2 ^ 32 - d) :: u32) = 2 ^ 32 - d"
    by (simp add: unat_of_nat)
  ultimately show ?thesis by simp
qed

section \<open>The converter at 240 MHz\<close>

text \<open>
  C1. At 240 MHz and 32 fractional bits the reciprocal is \<open>k = 17895697\<close>, rounded down
  from \<open>2 ^ 32 / 240 = 17895697.07\<close>, and \<open>240000000 * k = 4294967280000000\<close> lies just
  below \<open>1000000 * 2 ^ 32\<close>: the shift truncates one second of cycles to 999999
  microseconds, not to 1000000.
\<close>

theorem make_240MHz_one_second:
  "make 240000000 32 = Some \<lparr>k = 17895697, shift = 32\<rparr> \<and>
   to_us \<lparr>k = 17895697, shift = 32\<rparr> 240000000 = 999999"
  by (simp add: make_def to_us_def drop_bit_eq_div)

text \<open>The converter is the one built above, and one second of cycles is not mapped to 1000000.\<close>

theorem make_240MHz_one_second_counterexample:
  "make 240000000 32 = Some \<lparr>k = 17895697, shift = 32\<rparr> \<and>
   to_us \<lparr>k = 17895697, shift = 32\<rparr> 240000000 \<noteq> 1000000"
  by (simp add: make_def to_us_def drop_bit_eq_div)

section \<open>Elapsed cycles\<close>

lemma unat_cycles_between:
  fixes a b :: "'a::len word Timestamp"
  assumes "LENGTH('a) \<le> 64"
  shows "unat (cycles_between a b) = unat (ticks b - ticks a)"
proof (cases "LENGTH('a) = 32")
  case True
  have "unat (ucast (ucast (ticks b - ticks a) :: u32) :: u64) = unat (ucast (ticks b - ticks a) :: u32)"
    by (rule unat_ucast_up) simp
  also have "\<dots> = unat (ticks b - ticks a)"
    by (rule unat_ucast_up) (simp add: True)
  finally show ?thesis by (simp add: cycles_between_def True)
next
  case False
  have "unat (ucast (ticks b - ticks a) :: u64) = unat (ticks b - ticks a)"
    by (rule unat_ucast_up) (simp add: assms)
  then show ?thesis by (simp add: cycles_between_def False)
qed

text \<open>
  C2. On either build (counter width \<open>N = 32\<close> or \<open>N = 64\<close>), when the ticks of \<open>b\<close> are
  the ticks of \<open>a\<close> plus \<open>d\<close> modulo \<open>2 ^ N\<close> and \<open>d < 2 ^ (N - 1)\<close>, \<open>cycles_between a b\<close>
  is exactly \<open>d\<close>, also when the addition wrapped past the counter maximum.
\<close>

theorem cycles_between_elapsed:
  fixes a b :: "'a::len word Timestamp"
  assumes "LENGTH('a) = 32 \<or> LENGTH('a) = 64"
    and "ticks b = ticks a + of_nat d"
    and "d < 2 ^ (LENGTH('a) - 1)"
  shows "unat (cycles_between a b) = d"
proof -
  from assms(1) have "LENGTH('a) \<le> 64" by auto
  then have "unat (cycles_between a b) = unat (ticks b - ticks a)"
    by (rule unat_cycles_between)
  also have "ticks b - ticks a = of_nat d"
    by (simp add: assms(2))
  also have "unat (of_nat d :: 'a word) = d"
    using assms(3) by (rule unat_of_nat_half)
  finally show ?thesis .
qed

text \<open>
  Both builds across a wrap: 32 cycles from \<open>2 ^ 32 - 16\<close> on the 32-bit counter, 5 cycles
  from \<open>2 ^ 64 - 1\<close> on the 64-bit one.
\<close>

theorem cycles_between_elapsed_witness:
  "ticks \<lparr>ticks = (16 :: u32)\<rparr> = ticks \<lparr>ticks = (4294967280 :: u32)\<rparr> + of_nat 32 \<and>
   (32 :: nat) < 2 ^ (LENGTH(32) - 1) \<and>
   unat (cycles_between \<lparr>ticks = (4294967280 :: u32)\<rparr> \<lparr>ticks = (16 :: u32)\<rparr>) = 32 \<and>
   ticks \<lparr>ticks = (4 :: u64)\<rparr> = ticks \<lparr>ticks = (18446744073709551615 :: u64)\<rparr> + of_nat 5 \<and>
   (5 :: nat) < 2 ^ (LENGTH(64) - 1) \<and>
   unat (cycles_between \<lparr>ticks = (18446744073709551615 :: u64)\<rparr> \<lparr>ticks = (4 :: u64)\<rparr>) = 5"
proof -
  have w32: "LENGTH(32) = 32 \<or> LENGTH(32) = 64" by simp
  have e32: "ticks \<lparr>ticks = (16 :: u32)\<rparr> = ticks \<lparr>ticks = (4294967280 :: u32)\<rparr> + of_nat 32"
    by simp
  have d32: "(32 :: nat) < 2 ^ (LENGTH(32) - 1)" by simp
  have w64: "LENGTH(64) = 32 \<or> LENGTH(64) = 64" by simp
  have e64: "ticks \<lparr>ticks = (4 :: u64)\<rparr> = ticks \<lparr>ticks = (18446744073709551615 :: u64)\<rparr> + of_nat 5"
    by simp
  have d64: "(5 :: nat) < 2 ^ (LENGTH(64) - 1)" by simp
  show ?thesis
    using e32 d32 e64 d64 cycles_between_elapsed [OF w32 e32 d32] cycles_between_elapsed [OF w64 e64 d64]
    by blast
qed

section \<open>Ordering of timestamps\<close>

lemma before32_iff:
  fixes a b :: "u32 Timestamp"
  shows "before a b \<longleftrightarrow> 2 ^ 31 \<le> unat (ticks a - ticks b)"
  using sint_neg_iff_unat [of "ticks a - ticks b"] by (simp add: before_def)

lemma before64_iff:
  fixes x y :: "u64 Timestamp"
  shows "before x y \<longleftrightarrow> unat (ticks x) < unat (ticks y)"
  by (simp add: before_def word_less_nat_alt)

lemma before32_forward:
  fixes a b :: "u32 Timestamp"
  assumes "ticks b = ticks a + of_nat d" and "d < 2 ^ 31"
  shows "before a b \<longleftrightarrow> 0 < d"
proof (cases "d = 0")
  case True
  with assms show ?thesis by (simp add: before32_iff)
next
  case False
  then have pos: "0 < d" by simp
  have "ticks a - ticks b = - of_nat d" by (simp add: assms(1))
  then have "unat (ticks a - ticks b) = 2 ^ 32 - d"
    using unat_minus_of_nat32 [OF pos assms(2)] by simp
  with assms(2) pos show ?thesis by (simp add: before32_iff)
qed

lemma before32_backward:
  fixes a b :: "u32 Timestamp"
  assumes "ticks a = ticks b + of_nat d" and "d < 2 ^ 31"
  shows "\<not> before a b"
proof -
  have "ticks a - ticks b = of_nat d" by (simp add: assms(1))
  moreover from assms(2) have "unat (of_nat d :: u32) = d"
    by (simp add: unat_of_nat)
  ultimately show ?thesis using assms(2) by (simp add: before32_iff)
qed

lemma before32_true_time:
  fixes a b :: "u32 Timestamp"
  assumes "ticks a = of_nat ta" and "ticks b = of_nat tb"
    and "ta < tb + 2 ^ 31" and "tb < ta + 2 ^ 31"
  shows "before a b \<longleftrightarrow> ta < tb"
proof (cases "ta < tb")
  case True
  have "ticks b = ticks a + of_nat (tb - ta)"
    using True by (simp add: assms(1,2) flip: of_nat_add)
  moreover from True assms(4) have "tb - ta < 2 ^ 31" by simp
  ultimately have "before a b \<longleftrightarrow> 0 < tb - ta"
    by (rule before32_forward)
  with True show ?thesis by simp
next
  case False
  have "ticks a = ticks b + of_nat (ta - tb)"
    using False by (simp add: assms(1,2) flip: of_nat_add)
  moreover from False assms(3) have "ta - tb < 2 ^ 31" by simp
  ultimately have "\<not> before a b"
    by (rule before32_backward)
  with False show ?thesis by simp
qed

lemma before64_forward:
  fixes x y :: "u64 Timestamp"
  assumes "ticks y = ticks x + of_nat e" and "unat (ticks x) + e < 2 ^ 64"
  shows "before x y \<longleftrightarrow> 0 < e"
proof -
  from assms(2) have "e < 2 ^ 64" by simp
  then have e: "unat (of_nat e :: u64) = e" by (simp add: unat_of_nat)
  with assms(2) have "unat (ticks x + of_nat e) = unat (ticks x) + e"
    by (simp add: unat_add_lem [THEN iffD1])
  then show ?thesis by (simp add: before64_iff assms(1))
qed

text \<open>
  C3. On the 32-bit build \<open>before a b\<close> is the sign of \<open>ticks a - ticks b\<close> read as
  \<^verbatim>\<open>int32_t\<close>, and whenever the ticks of \<open>b\<close> are those of \<open>a\<close> plus \<open>d\<close> modulo \<open>2 ^ 32\<close>
  with \<open>d < 2 ^ 31\<close>, it holds exactly when \<open>0 < d\<close>, wrap or no wrap. The 64-bit build
  compares the unsigned values: there the same equivalence holds when the counter did
  not wrap between the two captures, that is when \<open>ticks x + e\<close> stays below \<open>2 ^ 64\<close>.
\<close>

theorem before_elapsed:
  fixes a b :: "u32 Timestamp" and x y :: "u64 Timestamp"
  shows "(before a b \<longleftrightarrow> sint (ticks a - ticks b) < 0) \<and>
    (ticks b = ticks a + of_nat d \<and> d < 2 ^ 31 \<longrightarrow> (before a b \<longleftrightarrow> 0 < d)) \<and>
    (ticks y = ticks x + of_nat e \<and> unat (ticks x) + e < 2 ^ 64 \<longrightarrow> (before x y \<longleftrightarrow> 0 < e))"
proof (intro conjI impI)
  show "before a b \<longleftrightarrow> sint (ticks a - ticks b) < 0"
    by (simp add: before_def)
next
  assume "ticks b = ticks a + of_nat d \<and> d < 2 ^ 31"
  then show "before a b \<longleftrightarrow> 0 < d"
    using before32_forward [of b a d] by blast
next
  assume "ticks y = ticks x + of_nat e \<and> unat (ticks x) + e < 2 ^ 64"
  then show "before x y \<longleftrightarrow> 0 < e"
    using before64_forward [of y x e] by blast
qed

text \<open>
  A capture 16 cycles before the 32-bit counter wraps and one 16 cycles after it; two
  captures 7 cycles apart on the 64-bit counter.
\<close>

theorem before_elapsed_witness:
  "ticks \<lparr>ticks = (16 :: u32)\<rparr> = ticks \<lparr>ticks = (4294967280 :: u32)\<rparr> + of_nat 32 \<and>
   (32 :: nat) < 2 ^ 31 \<and>
   before \<lparr>ticks = (4294967280 :: u32)\<rparr> \<lparr>ticks = (16 :: u32)\<rparr> \<and>
   ticks \<lparr>ticks = (12 :: u64)\<rparr> = ticks \<lparr>ticks = (5 :: u64)\<rparr> + of_nat 7 \<and>
   unat (ticks \<lparr>ticks = (5 :: u64)\<rparr>) + 7 < 2 ^ 64 \<and>
   before \<lparr>ticks = (5 :: u64)\<rparr> \<lparr>ticks = (12 :: u64)\<rparr>"
proof -
  have e32: "ticks \<lparr>ticks = (16 :: u32)\<rparr> = ticks \<lparr>ticks = (4294967280 :: u32)\<rparr> + of_nat 32"
    by simp
  have d32: "(32 :: nat) < 2 ^ 31" by simp
  have e64: "ticks \<lparr>ticks = (12 :: u64)\<rparr> = ticks \<lparr>ticks = (5 :: u64)\<rparr> + of_nat 7"
    by simp
  have d64: "unat (ticks \<lparr>ticks = (5 :: u64)\<rparr>) + 7 < 2 ^ 64" by simp
  have p: "(0 :: nat) < 32" "(0 :: nat) < 7" by simp_all
  show ?thesis
    using e32 d32 e64 d64 p
      before_elapsed [of "\<lparr>ticks = (4294967280 :: u32)\<rparr>" "\<lparr>ticks = (16 :: u32)\<rparr>" 32
        "\<lparr>ticks = (12 :: u64)\<rparr>" "\<lparr>ticks = (5 :: u64)\<rparr>" 7]
    by blast
qed

text \<open>
  On the 64-bit build a capture at the counter maximum and one a single cycle later, at 0,
  are a true distance of 1 apart, yet the first is not before the second.
\<close>

theorem before_elapsed_counterexample:
  "ticks \<lparr>ticks = (0 :: u64)\<rparr> = ticks \<lparr>ticks = (18446744073709551615 :: u64)\<rparr> + of_nat 1 \<and>
   (1 :: nat) < 2 ^ 63 \<and> (0 :: nat) < 1 \<and>
   \<not> before \<lparr>ticks = (18446744073709551615 :: u64)\<rparr> \<lparr>ticks = (0 :: u64)\<rparr>"
  by (simp add: before_def)

text \<open>
  C8. \<open>before\<close> is irreflexive on both builds. It is transitive on the 64-bit build, and on
  the 32-bit build for captures \<open>a\<close>, \<open>b\<close>, \<open>c\<close> taken at true cycle counts \<open>ta\<close>, \<open>tb\<close>,
  \<open>tc\<close> that lie pairwise less than \<open>2 ^ 31\<close> apart.
\<close>

theorem before_strict_order:
  fixes a b c :: "u32 Timestamp" and x y z :: "u64 Timestamp"
  shows "\<not> before a a \<and> \<not> before x x \<and>
    (ticks a = of_nat ta \<and> ticks b = of_nat tb \<and> ticks c = of_nat tc \<and>
     ta < tb + 2 ^ 31 \<and> tb < ta + 2 ^ 31 \<and>
     tb < tc + 2 ^ 31 \<and> tc < tb + 2 ^ 31 \<and>
     ta < tc + 2 ^ 31 \<and> tc < ta + 2 ^ 31 \<and>
     before a b \<and> before b c \<longrightarrow> before a c) \<and>
    (before x y \<and> before y z \<longrightarrow> before x z)"
proof (intro conjI impI)
  show "\<not> before a a" by (simp add: before32_iff)
  show "\<not> before x x" by (simp add: before64_iff)
next
  assume h: "ticks a = of_nat ta \<and> ticks b = of_nat tb \<and> ticks c = of_nat tc \<and>
     ta < tb + 2 ^ 31 \<and> tb < ta + 2 ^ 31 \<and>
     tb < tc + 2 ^ 31 \<and> tc < tb + 2 ^ 31 \<and>
     ta < tc + 2 ^ 31 \<and> tc < ta + 2 ^ 31 \<and>
     before a b \<and> before b c"
  then have "before a b \<longleftrightarrow> ta < tb" by (intro before32_true_time) simp_all
  moreover from h have "before b c \<longleftrightarrow> tb < tc" by (intro before32_true_time) simp_all
  moreover from h have "before a c \<longleftrightarrow> ta < tc" by (intro before32_true_time) simp_all
  ultimately show "before a c" using h by auto
next
  assume "before x y \<and> before y z"
  then show "before x z" by (auto simp: before64_iff)
qed

text \<open>
  Three captures 10 cycles apart around the wrap of the 32-bit counter, at true counts
  \<open>2 ^ 32 - 6\<close>, \<open>2 ^ 32 + 4\<close> and \<open>2 ^ 32 + 14\<close>, and three captures on the 64-bit build.
\<close>

theorem before_strict_order_witness:
  "ticks \<lparr>ticks = (4294967290 :: u32)\<rparr> = of_nat 4294967290 \<and>
   ticks \<lparr>ticks = (4 :: u32)\<rparr> = of_nat 4294967300 \<and>
   ticks \<lparr>ticks = (14 :: u32)\<rparr> = of_nat 4294967310 \<and>
   (4294967290 :: nat) < 4294967300 + 2 ^ 31 \<and> (4294967300 :: nat) < 4294967290 + 2 ^ 31 \<and>
   (4294967300 :: nat) < 4294967310 + 2 ^ 31 \<and> (4294967310 :: nat) < 4294967300 + 2 ^ 31 \<and>
   (4294967290 :: nat) < 4294967310 + 2 ^ 31 \<and> (4294967310 :: nat) < 4294967290 + 2 ^ 31 \<and>
   before \<lparr>ticks = (4294967290 :: u32)\<rparr> \<lparr>ticks = (4 :: u32)\<rparr> \<and>
   before \<lparr>ticks = (4 :: u32)\<rparr> \<lparr>ticks = (14 :: u32)\<rparr> \<and>
   before \<lparr>ticks = (4294967290 :: u32)\<rparr> \<lparr>ticks = (14 :: u32)\<rparr> \<and>
   before \<lparr>ticks = (3 :: u64)\<rparr> \<lparr>ticks = (5 :: u64)\<rparr> \<and>
   before \<lparr>ticks = (5 :: u64)\<rparr> \<lparr>ticks = (8 :: u64)\<rparr> \<and>
   before \<lparr>ticks = (3 :: u64)\<rparr> \<lparr>ticks = (8 :: u64)\<rparr>"
proof -
  have ta: "ticks \<lparr>ticks = (4294967290 :: u32)\<rparr> = of_nat 4294967290" by simp
  have tb: "ticks \<lparr>ticks = (4 :: u32)\<rparr> = of_nat 4294967300" by simp
  have tc: "ticks \<lparr>ticks = (14 :: u32)\<rparr> = of_nat 4294967310" by simp
  have d: "(4294967290 :: nat) < 4294967300 + 2 ^ 31" "(4294967300 :: nat) < 4294967290 + 2 ^ 31"
    "(4294967300 :: nat) < 4294967310 + 2 ^ 31" "(4294967310 :: nat) < 4294967300 + 2 ^ 31"
    "(4294967290 :: nat) < 4294967310 + 2 ^ 31" "(4294967310 :: nat) < 4294967290 + 2 ^ 31"
    by simp_all
  have ab: "before \<lparr>ticks = (4294967290 :: u32)\<rparr> \<lparr>ticks = (4 :: u32)\<rparr>"
    by (simp add: before_def)
  have bc: "before \<lparr>ticks = (4 :: u32)\<rparr> \<lparr>ticks = (14 :: u32)\<rparr>"
    by (simp add: before_def)
  have xy: "before \<lparr>ticks = (3 :: u64)\<rparr> \<lparr>ticks = (5 :: u64)\<rparr>"
    by (simp add: before_def)
  have yz: "before \<lparr>ticks = (5 :: u64)\<rparr> \<lparr>ticks = (8 :: u64)\<rparr>"
    by (simp add: before_def)
  show ?thesis
    using ta tb tc d ab bc xy yz
      before_strict_order [of "\<lparr>ticks = (4294967290 :: u32)\<rparr>" "\<lparr>ticks = (3 :: u64)\<rparr>"
        4294967290 "\<lparr>ticks = (4 :: u32)\<rparr>" 4294967300 "\<lparr>ticks = (14 :: u32)\<rparr>" 4294967310
        "\<lparr>ticks = (5 :: u64)\<rparr>" "\<lparr>ticks = (8 :: u64)\<rparr>"]
    by blast
qed

section \<open>The tear-free 64-bit read\<close>

text \<open>One pass of the loop: it starts over after three reads, or leaves with the two halves.\<close>

lemma fast_rdcycle64_retry:
  assumes "csrr_mcycleh (h i) \<noteq> csrr_mcycleh (h (i + 2))"
  shows "fast_rdcycle64 h i = fast_rdcycle64 h (i + 3)"
  using assms by (subst fast_rdcycle64.simps) (simp add: Let_def)

lemma fast_rdcycle64_leave:
  assumes "csrr_mcycleh (h i) = csrr_mcycleh (h (i + 2))"
  shows "fast_rdcycle64 h i =
    Some (push_bit 32 (ucast (csrr_mcycleh (h (i + 2)))) OR ucast (csrr_mcycle (h (i + 1))))"
  using assms by (subst fast_rdcycle64.simps) (simp add: Let_def)

text \<open>The two halves of one and the same state of the counter make up its 64-bit value.\<close>

lemma halves_same_instant:
  "push_bit 32 (ucast (csrr_mcycleh c)) OR ucast (csrr_mcycle c) = (of_nat c :: u64)"
proof -
  have "csrr_mcycleh c = of_nat (drop_bit 32 c)"
    by (simp only: csrr_mcycleh_def drop_bit_eq_div)
  then show ?thesis
    unfolding csrr_mcycle_def
    by (intro bit_eqI) (auto simp: bit_simps)
qed

text \<open>
  A triple into which no carry falls: the upper half is the same at its three reads, and
  the loop leaves with the counter at the read of \<^verbatim>\<open>mcycle\<close>.
\<close>

lemma high_word_between:
  assumes "c \<le> m" and "m \<le> c'" and "c' div 2 ^ 32 = c div (2 ^ 32 :: nat)"
  shows "m div 2 ^ 32 = c div 2 ^ 32"
proof -
  from assms(1) have "c div 2 ^ 32 \<le> m div 2 ^ 32" by (rule div_le_mono)
  moreover from assms(2) have "m div 2 ^ 32 \<le> c' div 2 ^ 32" by (rule div_le_mono)
  ultimately show ?thesis using assms(3) by simp
qed

lemma fast_rdcycle64_no_carry:
  assumes "h i \<le> h (i + 1)" and "h (i + 1) \<le> h (i + 2)"
    and "h (i + 2) div 2 ^ 32 = h i div 2 ^ 32"
  shows "fast_rdcycle64 h i = Some (of_nat (h (i + 1)))"
proof -
  have mid: "h (i + 1) div 2 ^ 32 = h (i + 2) div 2 ^ 32"
    using high_word_between [OF assms] assms(3) by simp
  have "csrr_mcycleh (h i) = csrr_mcycleh (h (i + 2))"
    by (simp only: csrr_mcycleh_def assms(3))
  then have "fast_rdcycle64 h i =
    Some (push_bit 32 (ucast (csrr_mcycleh (h (i + 2)))) OR ucast (csrr_mcycle (h (i + 1))))"
    by (rule fast_rdcycle64_leave)
  also have "csrr_mcycleh (h (i + 2)) = csrr_mcycleh (h (i + 1))"
    by (simp only: csrr_mcycleh_def mid)
  finally show ?thesis by (simp only: halves_same_instant)
qed

text \<open>A counter that never runs backwards from one read to the next never does between any two.\<close>

lemma history_mono:
  assumes "\<forall>m. h m \<le> h (Suc m)" and "a \<le> b"
  shows "h a \<le> (h b :: nat)"
  using assms by (intro lift_Suc_mono_le [of h a b]) simp_all

text \<open>Two readings of \<^verbatim>\<open>mcycleh\<close> that differ have a carry into the upper half between them.\<close>

lemma disagree_is_carry:
  assumes "c \<le> c'" and "csrr_mcycleh c \<noteq> csrr_mcycleh c'"
  shows "c div 2 ^ 32 < c' div 2 ^ 32"
proof -
  from assms(1) have "c div 2 ^ 32 \<le> c' div 2 ^ 32" by (rule div_le_mono)
  moreover from assms(2) have "c div 2 ^ 32 \<noteq> c' div 2 ^ 32"
    by (auto simp only: csrr_mcycleh_def)
  ultimately show ?thesis by simp
qed

text \<open>A single carry, the upper half going up by one, is seen by the two readings.\<close>

lemma carry_is_disagree:
  assumes "c' div 2 ^ 32 = Suc (c div 2 ^ 32)"
  shows "csrr_mcycleh c \<noteq> csrr_mcycleh c'"
proof
  assume "csrr_mcycleh c = csrr_mcycleh c'"
  with assms have "(of_nat (c div 2 ^ 32) :: u32) = of_nat (c div 2 ^ 32) + 1"
    by (simp add: csrr_mcycleh_def)
  then show False by simp
qed

text \<open>
  The loop over any number of passes: it starts over as long as the two readings of
  \<^verbatim>\<open>mcycleh\<close> differ and leaves with the halves of the first triple in which they agree.
  It returns exactly when there is such a triple.
\<close>

lemma fast_rdcycle64_retries:
  assumes "\<forall>j<n. csrr_mcycleh (h (i + 3 * j)) \<noteq> csrr_mcycleh (h (i + 3 * j + 2))"
  shows "fast_rdcycle64 h i = fast_rdcycle64 h (i + 3 * n)"
  using assms
proof (induction n arbitrary: i)
  case 0
  show ?case by simp
next
  case (Suc n)
  from Suc.prems have "csrr_mcycleh (h (i + 3 * 0)) \<noteq> csrr_mcycleh (h (i + 3 * 0 + 2))"
    by blast
  then have "csrr_mcycleh (h i) \<noteq> csrr_mcycleh (h (i + 2))" by simp
  then have first: "fast_rdcycle64 h i = fast_rdcycle64 h (i + 3)"
    by (rule fast_rdcycle64_retry)
  have "\<forall>j<n. csrr_mcycleh (h (i + 3 + 3 * j)) \<noteq> csrr_mcycleh (h (i + 3 + 3 * j + 2))"
  proof (intro allI impI)
    fix j assume "j < n"
    then have "Suc j < Suc n" by simp
    with Suc.prems have "csrr_mcycleh (h (i + 3 * Suc j)) \<noteq> csrr_mcycleh (h (i + 3 * Suc j + 2))"
      by blast
    then show "csrr_mcycleh (h (i + 3 + 3 * j)) \<noteq> csrr_mcycleh (h (i + 3 + 3 * j + 2))"
      by (simp add: ac_simps)
  qed
  then have "fast_rdcycle64 h (i + 3) = fast_rdcycle64 h (i + 3 + 3 * n)"
    by (rule Suc.IH)
  with first show ?case by (simp add: ac_simps)
qed

lemma fast_rdcycle64_Some_agree:
  assumes "fast_rdcycle64 h i = Some v"
  shows "\<exists>n. csrr_mcycleh (h (i + 3 * n)) = csrr_mcycleh (h (i + 3 * n + 2))"
proof (rule fast_rdcycle64.raw_induct
    [where P = "\<lambda>h i v. \<exists>n. csrr_mcycleh (h (i + 3 * n)) = csrr_mcycleh (h (i + 3 * n + 2))",
      OF _ assms])
  fix f :: "(nat \<Rightarrow> nat) \<Rightarrow> nat \<Rightarrow> u64 option" and h i v
  assume IH: "\<And>h i v. f h i = Some v \<Longrightarrow>
      \<exists>n. csrr_mcycleh (h (i + 3 * n)) = csrr_mcycleh (h (i + 3 * n + 2))"
    and step: "(let hi1 = csrr_mcycleh (h i); lo = csrr_mcycle (h (i + 1));
          hi2 = csrr_mcycleh (h (i + 2))
      in if hi1 \<noteq> hi2 then f h (i + 3)
         else Some (push_bit 32 (ucast hi2) OR ucast lo)) = Some v"
  show "\<exists>n. csrr_mcycleh (h (i + 3 * n)) = csrr_mcycleh (h (i + 3 * n + 2))"
  proof (cases "csrr_mcycleh (h i) = csrr_mcycleh (h (i + 2))")
    case True
    then have "csrr_mcycleh (h (i + 3 * 0)) = csrr_mcycleh (h (i + 3 * 0 + 2))" by simp
    then show ?thesis by (rule exI)
  next
    case False
    with step have "f h (i + 3) = Some v" by (simp add: Let_def)
    then obtain n where "csrr_mcycleh (h (i + 3 + 3 * n)) = csrr_mcycleh (h (i + 3 + 3 * n + 2))"
      using IH by blast
    then have "csrr_mcycleh (h (i + 3 * Suc n)) = csrr_mcycleh (h (i + 3 * Suc n + 2))"
      by (simp add: ac_simps)
    then show ?thesis by (rule exI)
  qed
qed

lemma fast_rdcycle64_first_agree:
  assumes "\<forall>j<n. csrr_mcycleh (h (i + 3 * j)) \<noteq> csrr_mcycleh (h (i + 3 * j + 2))"
    and "csrr_mcycleh (h (i + 3 * n)) = csrr_mcycleh (h (i + 3 * n + 2))"
  shows "fast_rdcycle64 h i =
    Some (push_bit 32 (ucast (csrr_mcycleh (h (i + 3 * n + 2)))) OR ucast (csrr_mcycle (h (i + 3 * n + 1))))"
proof -
  from assms(1) have "fast_rdcycle64 h i = fast_rdcycle64 h (i + 3 * n)"
    by (rule fast_rdcycle64_retries)
  also from assms(2) have "\<dots> =
    Some (push_bit 32 (ucast (csrr_mcycleh (h (i + 3 * n + 2)))) OR ucast (csrr_mcycle (h (i + 3 * n + 1))))"
    by (rule fast_rdcycle64_leave)
  finally show ?thesis .
qed

lemma fast_rdcycle64_agree_returns:
  "csrr_mcycleh (h (i + 3 * n)) = csrr_mcycleh (h (i + 3 * n + 2)) \<Longrightarrow>
    \<exists>v. fast_rdcycle64 h i = Some v"
proof (induction n arbitrary: i)
  case 0
  then have "csrr_mcycleh (h i) = csrr_mcycleh (h (i + 2))" by simp
  then show ?case by (simp add: fast_rdcycle64_leave)
next
  case (Suc n)
  show ?case
  proof (cases "csrr_mcycleh (h i) = csrr_mcycleh (h (i + 2))")
    case True
    then show ?thesis by (simp add: fast_rdcycle64_leave)
  next
    case False
    then have "fast_rdcycle64 h i = fast_rdcycle64 h (i + 3)"
      by (rule fast_rdcycle64_retry)
    moreover from Suc.prems
    have "csrr_mcycleh (h (i + 3 + 3 * n)) = csrr_mcycleh (h (i + 3 + 3 * n + 2))"
      by (simp add: ac_simps)
    then have "\<exists>v. fast_rdcycle64 h (i + 3) = Some v" by (rule Suc.IH)
    ultimately show ?thesis by simp
  qed
qed

lemma fast_rdcycle64_returns_iff:
  "fast_rdcycle64 h i \<noteq> None \<longleftrightarrow>
    (\<exists>n. csrr_mcycleh (h (i + 3 * n)) = csrr_mcycleh (h (i + 3 * n + 2)))"
proof
  assume "fast_rdcycle64 h i \<noteq> None"
  then obtain v where "fast_rdcycle64 h i = Some v" by blast
  then show "\<exists>n. csrr_mcycleh (h (i + 3 * n)) = csrr_mcycleh (h (i + 3 * n + 2))"
    by (rule fast_rdcycle64_Some_agree)
next
  assume "\<exists>n. csrr_mcycleh (h (i + 3 * n)) = csrr_mcycleh (h (i + 3 * n + 2))"
  then obtain n where "csrr_mcycleh (h (i + 3 * n)) = csrr_mcycleh (h (i + 3 * n + 2))" ..
  then have "\<exists>v. fast_rdcycle64 h i = Some v" by (rule fast_rdcycle64_agree_returns)
  then show "fast_rdcycle64 h i \<noteq> None" by auto
qed

text \<open>
  C4. The read is the triple \<^verbatim>\<open>mcycleh\<close>, \<^verbatim>\<open>mcycle\<close>, \<^verbatim>\<open>mcycleh\<close>, repeated while the two
  upper halves differ. Take any register history of a counter that never runs backwards,
  in which the upper half changes between the first and the second read of \<^verbatim>\<open>mcycleh\<close>,
  and likewise in every further triple before the \<open>n\<close>-th, while no carry falls into triple
  \<open>n\<close>. The loop starts the triple over, \<open>n\<close> times in all, and returns the whole counter
  at the instant of the read of \<^verbatim>\<open>mcycle\<close> in triple \<open>n\<close>: both halves are of that one
  instant, and its upper half is the one after the carry of the first triple.
\<close>

theorem fast_rdcycle64_carry:
  assumes mono: "\<forall>m. h m \<le> h (Suc m)"
    and first: "0 < n"
    and carries: "\<forall>j<n. csrr_mcycleh (h (i + 3 * j)) \<noteq> csrr_mcycleh (h (i + 3 * j + 2))"
    and calm: "h (i + 3 * n + 2) div 2 ^ 32 = h (i + 3 * n) div 2 ^ 32"
  shows "fast_rdcycle64 h i = fast_rdcycle64 h (i + 3) \<and>
    fast_rdcycle64 h i = Some (of_nat (h (i + 3 * n + 1))) \<and>
    h i div 2 ^ 32 < h (i + 2) div 2 ^ 32 \<and>
    h (i + 2) div 2 ^ 32 \<le> h (i + 3 * n + 1) div 2 ^ 32"
proof -
  from first carries have "csrr_mcycleh (h (i + 3 * 0)) \<noteq> csrr_mcycleh (h (i + 3 * 0 + 2))"
    by blast
  then have d0: "csrr_mcycleh (h i) \<noteq> csrr_mcycleh (h (i + 2))" by simp
  then have again: "fast_rdcycle64 h i = fast_rdcycle64 h (i + 3)"
    by (rule fast_rdcycle64_retry)
  from carries have "fast_rdcycle64 h i = fast_rdcycle64 h (i + 3 * n)"
    by (rule fast_rdcycle64_retries)
  also have "\<dots> = Some (of_nat (h (i + 3 * n + 1)))"
  proof (rule fast_rdcycle64_no_carry)
    show "h (i + 3 * n) \<le> h (i + 3 * n + 1)"
      using mono by (rule history_mono) simp
    show "h (i + 3 * n + 1) \<le> h (i + 3 * n + 2)"
      using mono by (rule history_mono) simp
    show "h (i + 3 * n + 2) div 2 ^ 32 = h (i + 3 * n) div 2 ^ 32"
      by (rule calm)
  qed
  finally have ret: "fast_rdcycle64 h i = Some (of_nat (h (i + 3 * n + 1)))" .
  have "h i \<le> h (i + 2)" using mono by (rule history_mono) simp
  then have carry: "h i div 2 ^ 32 < h (i + 2) div 2 ^ 32"
    using d0 by (rule disagree_is_carry)
  from first have "i + 2 \<le> i + 3 * n + 1" by simp
  with mono have "h (i + 2) \<le> h (i + 3 * n + 1)" by (rule history_mono)
  then have after: "h (i + 2) div 2 ^ 32 \<le> h (i + 3 * n + 1) div 2 ^ 32"
    by (rule div_le_mono)
  from again ret carry after show ?thesis by blast
qed

text \<open>
  A carry in each of the first two triples: the counter stands at \<open>2 ^ 32 - 1\<close> at the first
  read and at \<open>2 ^ 33 - 1\<close> at the fourth, and moves one cycle per read otherwise. The loop
  returns \<open>2 ^ 33 + 3\<close>, the counter at the eighth read, and not the \<open>2 ^ 32\<close> that the
  halves of the second triple would pair up to.
\<close>

theorem fast_rdcycle64_carry_witness:
  "(let h = (\<lambda>m. if m < 3 then 4294967295 + m else 8589934588 + m) in
     (\<forall>m. h m \<le> h (Suc m)) \<and> (0 :: nat) < 2 \<and>
     csrr_mcycleh (h 0) \<noteq> csrr_mcycleh (h 2) \<and>
     csrr_mcycleh (h 3) \<noteq> csrr_mcycleh (h 5) \<and>
     h 8 div 2 ^ 32 = h 6 div 2 ^ 32 \<and>
     fast_rdcycle64 h 0 = Some 8589934595 \<and>
     fast_rdcycle64 h 0 \<noteq> Some (push_bit 32 (ucast (csrr_mcycleh (h 3))) OR ucast (csrr_mcycle (h 4))))"
proof -
  define h :: "nat \<Rightarrow> nat" where "h = (\<lambda>m. if m < 3 then 4294967295 + m else 8589934588 + m)"
  have mono: "\<forall>m. h m \<le> h (Suc m)" by (simp add: h_def)
  have pos: "(0 :: nat) < 2" by simp
  have c0: "csrr_mcycleh (h 0) \<noteq> csrr_mcycleh (h 2)"
    and c1: "csrr_mcycleh (h 3) \<noteq> csrr_mcycleh (h 5)"
    by (simp_all add: h_def csrr_mcycleh_def)
  have carries: "\<forall>j<2. csrr_mcycleh (h (0 + 3 * j)) \<noteq> csrr_mcycleh (h (0 + 3 * j + 2))"
  proof (intro allI impI)
    fix j :: nat assume "j < 2"
    then consider "j = 0" | "j = 1" by linarith
    then show "csrr_mcycleh (h (0 + 3 * j)) \<noteq> csrr_mcycleh (h (0 + 3 * j + 2))"
    proof cases
      case 1
      show ?thesis unfolding 1 by (simp add: h_def csrr_mcycleh_def)
    next
      case 2
      show ?thesis unfolding 2 by (simp add: h_def csrr_mcycleh_def)
    qed
  qed
  have calm: "h (0 + 3 * 2 + 2) div 2 ^ 32 = h (0 + 3 * 2) div 2 ^ 32"
    by (simp add: h_def)
  then have calm': "h 8 div 2 ^ 32 = h 6 div 2 ^ 32" by simp
  have "fast_rdcycle64 h 0 = Some (of_nat (h (0 + 3 * 2 + 1)))"
    using fast_rdcycle64_carry [OF mono pos carries calm] by blast
  moreover have "(of_nat (h (0 + 3 * 2 + 1)) :: u64) = 8589934595" by (simp add: h_def)
  ultimately have ret: "fast_rdcycle64 h 0 = Some 8589934595" by simp
  have "push_bit 32 (ucast (csrr_mcycleh (h 3))) OR ucast (csrr_mcycle (h 4)) = (4294967296 :: u64)"
    by (simp add: h_def csrr_mcycleh_def csrr_mcycle_def)
  with ret have torn: "fast_rdcycle64 h 0 \<noteq>
      Some (push_bit 32 (ucast (csrr_mcycleh (h 3))) OR ucast (csrr_mcycle (h 4)))"
    by simp
  from mono pos c0 c1 calm' ret torn show ?thesis
    unfolding Let_def h_def by blast
qed

text \<open>
  X1. The 64-bit read returns exactly for the register histories with a triple whose two
  readings of \<^verbatim>\<open>mcycleh\<close> agree, and it returns the halves read in the first such triple.
\<close>

theorem fast_rdcycle64_returns_first_agreeing:
  "(fast_rdcycle64 h i \<noteq> None \<longleftrightarrow>
      (\<exists>n. csrr_mcycleh (h (i + 3 * n)) = csrr_mcycleh (h (i + 3 * n + 2)))) \<and>
   ((\<forall>j<n. csrr_mcycleh (h (i + 3 * j)) \<noteq> csrr_mcycleh (h (i + 3 * j + 2))) \<and>
    csrr_mcycleh (h (i + 3 * n)) = csrr_mcycleh (h (i + 3 * n + 2)) \<longrightarrow>
      fast_rdcycle64 h i =
        Some (push_bit 32 (ucast (csrr_mcycleh (h (i + 3 * n + 2)))) OR
          ucast (csrr_mcycle (h (i + 3 * n + 1)))))"
proof (intro conjI impI)
  show "fast_rdcycle64 h i \<noteq> None \<longleftrightarrow>
      (\<exists>n. csrr_mcycleh (h (i + 3 * n)) = csrr_mcycleh (h (i + 3 * n + 2)))"
    by (rule fast_rdcycle64_returns_iff)
next
  assume a: "(\<forall>j<n. csrr_mcycleh (h (i + 3 * j)) \<noteq> csrr_mcycleh (h (i + 3 * j + 2))) \<and>
    csrr_mcycleh (h (i + 3 * n)) = csrr_mcycleh (h (i + 3 * n + 2))"
  then have "\<forall>j<n. csrr_mcycleh (h (i + 3 * j)) \<noteq> csrr_mcycleh (h (i + 3 * j + 2))"
    and "csrr_mcycleh (h (i + 3 * n)) = csrr_mcycleh (h (i + 3 * n + 2))"
    by (rule conjunct1, rule conjunct2)
  then show "fast_rdcycle64 h i =
      Some (push_bit 32 (ucast (csrr_mcycleh (h (i + 3 * n + 2)))) OR
        ucast (csrr_mcycle (h (i + 3 * n + 1))))"
    by (rule fast_rdcycle64_first_agree)
qed

text \<open>A counter at 1000 that moves one cycle per read: the first triple agrees.\<close>

theorem fast_rdcycle64_returns_first_agreeing_witness:
  "csrr_mcycleh (1000 + (0 + 3 * 0)) = csrr_mcycleh (1000 + (0 + 3 * 0 + 2)) \<and>
   fast_rdcycle64 (\<lambda>m. 1000 + m) 0 \<noteq> None \<and>
   fast_rdcycle64 (\<lambda>m. 1000 + m) 0 = Some 1001"
proof -
  have none: "\<forall>j<0. csrr_mcycleh (1000 + (0 + 3 * j)) \<noteq> csrr_mcycleh (1000 + (0 + 3 * j + 2))"
    by simp
  have agree: "csrr_mcycleh (1000 + (0 + 3 * 0)) = csrr_mcycleh (1000 + (0 + 3 * 0 + 2))"
    by (simp add: csrr_mcycleh_def)
  note at = fast_rdcycle64_returns_first_agreeing [of "\<lambda>m. 1000 + m" 0 0]
  from at agree have ret: "fast_rdcycle64 (\<lambda>m. 1000 + m) 0 \<noteq> None" by blast
  from at none agree have "fast_rdcycle64 (\<lambda>m. 1000 + m) 0 =
      Some (push_bit 32 (ucast (csrr_mcycleh (1000 + (0 + 3 * 0 + 2)))) OR
        ucast (csrr_mcycle (1000 + (0 + 3 * 0 + 1))))"
    by blast
  moreover have "push_bit 32 (ucast (csrr_mcycleh (1000 + (0 + 3 * 0 + 2)))) OR
      ucast (csrr_mcycle (1000 + (0 + 3 * 0 + 1))) = (1001 :: u64)"
    by (simp add: csrr_mcycleh_def csrr_mcycle_def)
  ultimately have "fast_rdcycle64 (\<lambda>m. 1000 + m) 0 = Some 1001" by simp
  with agree ret show ?thesis by blast
qed

section \<open>Construction of the fixed-point reciprocal\<close>

text \<open>
  What \<^verbatim>\<open>make\<close> stores, read as natural numbers: the shift and the addition each wrap
  modulo \<open>2 ^ 64\<close> before the division.
\<close>

lemma unat_shifted_million:
  "unat (push_bit n (1000000 :: u64)) = (1000000 * 2 ^ n) mod 2 ^ 64"
proof -
  have "unat (push_bit n (1000000 :: u64)) = take_bit 64 (push_bit n (unat (1000000 :: u64)))"
    by (simp only: unsigned_push_bit_eq len_num1 len_bit0 mult_1_right) simp
  also have "\<dots> = (1000000 * 2 ^ n) mod 2 ^ 64"
    by (simp only: take_bit_eq_mod push_bit_eq_mult) simp
  finally show ?thesis .
qed

lemma make_Some:
  assumes "freq_hz \<noteq> 0"
  shows "make freq_hz q =
    Some \<lparr>k = (push_bit (unat q) 1000000 + freq_hz div 2) div freq_hz, shift = q\<rparr>"
  using assms by (simp add: make_def)

lemma unat_make_k:
  "unat ((push_bit n 1000000 + freq_hz div 2) div freq_hz :: u64) =
     (((1000000 * 2 ^ n) mod 2 ^ 64 + unat freq_hz div 2) mod 2 ^ 64) div unat freq_hz"
proof -
  have "unat (freq_hz div 2) = unat freq_hz div 2"
    by (simp add: unat_div)
  then have "unat (push_bit n 1000000 + freq_hz div 2 :: u64) =
      ((1000000 * 2 ^ n) mod 2 ^ 64 + unat freq_hz div 2) mod 2 ^ 64"
    by (simp only: unat_word_ariths(1) unat_shifted_million) simp
  then show ?thesis by (simp only: unat_div)
qed

lemma round_half_up_nat:
  fixes f N :: nat
  assumes "0 < f"
  shows "2 * (((N + f div 2) div f) * f) \<le> 2 * N + f"
    and "2 * N + f < 2 * (((N + f div 2) div f) * f) + 2 * f"
proof -
  let ?K = "(N + f div 2) div f"
  have "?K * f \<le> N + f div 2" by (rule div_times_less_eq_dividend)
  then show "2 * (?K * f) \<le> 2 * N + f" by linarith
  have "N + f div 2 < ?K * f + f"
    using assms dividend_less_div_times [of f "N + f div 2"] by (simp add: ac_simps)
  then show "2 * N + f < 2 * (?K * f) + 2 * f" by linarith
qed

text \<open>
  C7. For a frequency of at least 1 Hz and a precision \<open>q\<close> for which the intermediate
  \<open>1000000 * 2 ^ q + freq_hz div 2\<close> fits the 64-bit intermediate width, \<open>make\<close> stores
  \<open>shift = q\<close> and \<open>k = (1000000 * 2 ^ q + freq_hz div 2) div freq_hz\<close>. That \<open>k\<close> is
  \<open>1000000 * 2 ^ q / freq_hz\<close> rounded half up: \<open>k - 1/2 \<le> 1000000 * 2 ^ q / freq_hz < k + 1/2\<close>,
  written here without fractions.
\<close>

theorem make_rounds_half_up:
  assumes "1 \<le> freq_hz"
    and "1000000 * 2 ^ unat q + unat freq_hz div 2 < 2 ^ 64"
  shows "\<exists>c. make freq_hz q = Some c \<and> shift c = q \<and>
    unat (k c) = (1000000 * 2 ^ unat q + unat freq_hz div 2) div unat freq_hz \<and>
    2 * (unat (k c) * unat freq_hz) \<le> 2 * (1000000 * 2 ^ unat q) + unat freq_hz \<and>
    2 * (1000000 * 2 ^ unat q) + unat freq_hz < 2 * (unat (k c) * unat freq_hz) + 2 * unat freq_hz"
proof -
  let ?N = "1000000 * 2 ^ unat q :: nat"
  let ?c = "\<lparr>k = (push_bit (unat q) 1000000 + freq_hz div 2) div freq_hz, shift = q\<rparr>"
  from assms(1) have nz: "freq_hz \<noteq> 0" by auto
  then have pos: "0 < unat freq_hz" by (simp add: unat_gt_0)
  from nz have mk: "make freq_hz q = Some ?c" by (rule make_Some)
  from assms(2) have "?N < 2 ^ 64" by simp
  then have "?N mod 2 ^ 64 = ?N" by simp
  with assms(2) have "unat (k ?c) = (?N + unat freq_hz div 2) div unat freq_hz"
    by (simp add: unat_make_k)
  with mk round_half_up_nat [OF pos, of ?N] show ?thesis by simp
qed

text \<open>The default configuration: 240 MHz at 32 fractional bits.\<close>

theorem make_rounds_half_up_witness:
  "1 \<le> (240000000 :: u64) \<and>
   1000000 * 2 ^ unat (32 :: u32) + unat (240000000 :: u64) div 2 < 2 ^ 64 \<and>
   (\<exists>c. make 240000000 32 = Some c \<and> shift c = 32 \<and> unat (k c) = 17895697)"
proof -
  have f: "1 \<le> (240000000 :: u64)" by simp
  have n: "1000000 * 2 ^ unat (32 :: u32) + unat (240000000 :: u64) div 2 < 2 ^ 64" by simp
  have v: "(1000000 * 2 ^ unat (32 :: u32) + unat (240000000 :: u64) div 2) div unat (240000000 :: u64)
    = 17895697" by simp
  from make_rounds_half_up [OF f n] obtain c where
    "make 240000000 32 = Some c" "shift c = 32"
    "unat (k c) = (1000000 * 2 ^ unat (32 :: u32) + unat (240000000 :: u64) div 2) div unat (240000000 :: u64)"
    by blast
  with v have "\<exists>c. make 240000000 32 = Some c \<and> shift c = 32 \<and> unat (k c) = 17895697"
    by (intro exI [of _ c]) (simp only: simp_thms)
  with f n show ?thesis by blast
qed

lemma million_shift_ge:
  assumes "45 \<le> n"
  shows "(35184372088832000000 :: nat) \<le> 1000000 * 2 ^ n"
proof -
  from assms have "(2 :: nat) ^ 45 \<le> 2 ^ n" by (intro power_increasing) simp_all
  then have "1000000 * (2 :: nat) ^ 45 \<le> 1000000 * 2 ^ n" by simp
  then show ?thesis by simp
qed

lemma million_shift_le:
  assumes "n \<le> 44"
  shows "1000000 * 2 ^ n \<le> (17592186044416000000 :: nat)"
proof -
  from assms have "(2 :: nat) ^ n \<le> 2 ^ 44" by (intro power_increasing) simp_all
  then have "1000000 * (2 :: nat) ^ n \<le> 1000000 * 2 ^ 44" by simp
  then show ?thesis by simp
qed

lemma wrapped_reciprocal_less:
  fixes f N S :: nat
  assumes "0 < f" and "f < 2 ^ 64" and "S < 2 ^ 64" and "35184372088832000000 \<le> N"
  shows "S div f < (N + f div 2) div f"
proof -
  from assms have "S + f \<le> N + f div 2" by simp
  then have "(S + f) div f \<le> (N + f div 2) div f" by (rule div_le_mono)
  moreover from assms(1) have "f \<noteq> 0" by simp
  then have "(S + f) div f = S div f + 1" by (rule div_add_self2)
  ultimately show ?thesis by simp
qed

text \<open>
  C10. \<^verbatim>\<open>1000000ULL << q\<close> is computed in \<^verbatim>\<open>uint64_t\<close>: the \<open>k\<close> that \<open>make\<close> stores is the
  quotient of the intermediate taken modulo \<open>2 ^ 64\<close>. For \<open>q \<le> 44\<close> the shift does not
  wrap, and when adding \<open>freq_hz div 2\<close> does not overflow either, \<open>k\<close> is the exact rounded
  reciprocal. For every \<open>q \<ge> 45\<close> the shift wraps modulo \<open>2 ^ 64\<close> and the stored \<open>k\<close> is
  strictly smaller than the rounded reciprocal, whatever the frequency; indeed no 64-bit
  value in the place of the shifted constant would reach it.
\<close>

theorem make_shift_overflow:
  "(1 \<le> freq_hz \<longrightarrow>
      (\<exists>c. make freq_hz q = Some c \<and> shift c = q \<and>
        unat (k c) =
          ((1000000 * 2 ^ unat q) mod 2 ^ 64 + unat freq_hz div 2) mod 2 ^ 64 div unat freq_hz)) \<and>
   (q \<le> 44 \<longrightarrow> (1000000 * 2 ^ unat q) mod 2 ^ 64 = (1000000 * 2 ^ unat q :: nat)) \<and>
   (q \<le> 44 \<and> 1 \<le> freq_hz \<and> 1000000 * 2 ^ unat q + unat freq_hz div 2 < 2 ^ 64 \<longrightarrow>
      (\<exists>c. make freq_hz q = Some c \<and> shift c = q \<and>
        unat (k c) = (1000000 * 2 ^ unat q + unat freq_hz div 2) div unat freq_hz)) \<and>
   (45 \<le> q \<and> 1 \<le> freq_hz \<longrightarrow>
      (1000000 * 2 ^ unat q) mod 2 ^ 64 < (1000000 * 2 ^ unat q :: nat) \<and>
      (\<exists>c. make freq_hz q = Some c \<and> shift c = q \<and>
        unat (k c) < (1000000 * 2 ^ unat q + unat freq_hz div 2) div unat freq_hz) \<and>
      (\<forall>s :: u64. unat ((s + freq_hz div 2) div freq_hz) <
        (1000000 * 2 ^ unat q + unat freq_hz div 2) div unat freq_hz))"
proof (intro conjI impI allI)
  let ?N = "1000000 * 2 ^ unat q :: nat"
  let ?c = "\<lparr>k = (push_bit (unat q) 1000000 + freq_hz div 2) div freq_hz, shift = q\<rparr>"
  assume "1 \<le> freq_hz"
  then have "freq_hz \<noteq> 0" by auto
  then have "make freq_hz q = Some ?c" by (rule make_Some)
  moreover have "unat (k ?c) = (?N mod 2 ^ 64 + unat freq_hz div 2) mod 2 ^ 64 div unat freq_hz"
    by (simp add: unat_make_k)
  ultimately show "\<exists>c. make freq_hz q = Some c \<and> shift c = q \<and>
      unat (k c) = (?N mod 2 ^ 64 + unat freq_hz div 2) mod 2 ^ 64 div unat freq_hz"
    by simp
next
  let ?N = "1000000 * 2 ^ unat q :: nat"
  assume "q \<le> 44"
  then have "unat q \<le> 44" by (simp add: word_le_nat_alt)
  then have "?N \<le> 17592186044416000000" by (rule million_shift_le)
  then show "?N mod 2 ^ 64 = ?N" by simp
next
  let ?N = "1000000 * 2 ^ unat q :: nat"
  let ?c = "\<lparr>k = (push_bit (unat q) 1000000 + freq_hz div 2) div freq_hz, shift = q\<rparr>"
  assume h: "q \<le> 44 \<and> 1 \<le> freq_hz \<and> ?N + unat freq_hz div 2 < 2 ^ 64"
  then have "freq_hz \<noteq> 0" by auto
  then have mk: "make freq_hz q = Some ?c" by (rule make_Some)
  from h have "?N < 2 ^ 64" by simp
  then have "?N mod 2 ^ 64 = ?N" by simp
  with h have "unat (k ?c) = (?N + unat freq_hz div 2) div unat freq_hz"
    by (simp add: unat_make_k)
  with mk show "\<exists>c. make freq_hz q = Some c \<and> shift c = q \<and>
      unat (k c) = (?N + unat freq_hz div 2) div unat freq_hz"
    by simp
next
  let ?N = "1000000 * 2 ^ unat q :: nat"
  assume h: "45 \<le> q \<and> 1 \<le> freq_hz"
  then have "45 \<le> unat q" by (simp add: word_le_nat_alt)
  then have big: "35184372088832000000 \<le> ?N" by (rule million_shift_ge)
  have "?N mod 2 ^ 64 < (2 :: nat) ^ 64" by simp
  also have "\<dots> \<le> ?N" using big by simp
  finally show "?N mod 2 ^ 64 < ?N" .
next
  let ?N = "1000000 * 2 ^ unat q :: nat"
  let ?c = "\<lparr>k = (push_bit (unat q) 1000000 + freq_hz div 2) div freq_hz, shift = q\<rparr>"
  let ?S = "(?N mod 2 ^ 64 + unat freq_hz div 2) mod 2 ^ 64"
  assume h: "45 \<le> q \<and> 1 \<le> freq_hz"
  then have nz: "freq_hz \<noteq> 0" by auto
  then have pos: "0 < unat freq_hz" by (simp add: unat_gt_0)
  from h have "45 \<le> unat q" by (simp add: word_le_nat_alt)
  then have big: "35184372088832000000 \<le> ?N" by (rule million_shift_ge)
  from nz have mk: "make freq_hz q = Some ?c" by (rule make_Some)
  have f64: "unat freq_hz < 2 ^ 64" using unsigned_less [of freq_hz] by simp
  have "?S < 2 ^ 64" by simp
  with pos f64 have "?S div unat freq_hz < (?N + unat freq_hz div 2) div unat freq_hz"
    using big by (rule wrapped_reciprocal_less)
  then have "unat (k ?c) < (?N + unat freq_hz div 2) div unat freq_hz"
    by (simp add: unat_make_k)
  with mk show "\<exists>c. make freq_hz q = Some c \<and> shift c = q \<and>
      unat (k c) < (?N + unat freq_hz div 2) div unat freq_hz"
    by simp
next
  let ?N = "1000000 * 2 ^ unat q :: nat"
  fix s :: u64
  assume h: "45 \<le> q \<and> 1 \<le> freq_hz"
  then have nz: "freq_hz \<noteq> 0" by auto
  then have pos: "0 < unat freq_hz" by (simp add: unat_gt_0)
  from h have "45 \<le> unat q" by (simp add: word_le_nat_alt)
  then have big: "35184372088832000000 \<le> ?N" by (rule million_shift_ge)
  have f64: "unat freq_hz < 2 ^ 64" using unsigned_less [of freq_hz] by simp
  have "unat (s + freq_hz div 2) < 2 ^ 64" using unsigned_less [of "s + freq_hz div 2"] by simp
  with pos f64 have "unat (s + freq_hz div 2) div unat freq_hz <
      (?N + unat freq_hz div 2) div unat freq_hz"
    using big by (rule wrapped_reciprocal_less)
  then show "unat ((s + freq_hz div 2) div freq_hz) < (?N + unat freq_hz div 2) div unat freq_hz"
    by (simp only: unat_div)
qed

text \<open>
  At 240 MHz: \<open>q = 44\<close> gives the exact \<open>k = 73300775185\<close>, \<open>q = 45\<close> stores
  \<open>k = 69740116730\<close> where the rounded reciprocal is 146601550370, and \<open>q = 64\<close> stores
  \<open>k = 0\<close>.
\<close>

theorem make_shift_overflow_witness:
  "(44 :: u32) \<le> 44 \<and> 1 \<le> (240000000 :: u64) \<and>
   1000000 * 2 ^ unat (44 :: u32) + unat (240000000 :: u64) div 2 < 2 ^ 64 \<and>
   (\<exists>c. make 240000000 44 = Some c \<and> shift c = 44 \<and> unat (k c) = 73300775185) \<and>
   (45 :: u32) \<le> 45 \<and>
   (\<exists>c. make 240000000 45 = Some c \<and> shift c = 45 \<and> unat (k c) < 146601550370) \<and>
   make 240000000 45 = Some \<lparr>k = 69740116730, shift = 45\<rparr> \<and>
   (45 :: u32) \<le> 64 \<and>
   (\<exists>c. make 240000000 64 = Some c \<and> shift c = 64 \<and> unat (k c) < 76861433640456465) \<and>
   make 240000000 64 = Some \<lparr>k = 0, shift = 64\<rparr>"
proof -
  have q44: "(44 :: u32) \<le> 44" and f: "1 \<le> (240000000 :: u64)"
    and n44: "1000000 * 2 ^ unat (44 :: u32) + unat (240000000 :: u64) div 2 < 2 ^ 64"
    and q45: "(45 :: u32) \<le> 45" and q64: "(45 :: u32) \<le> 64"
    by simp_all
  have r44: "(1000000 * 2 ^ unat (44 :: u32) + unat (240000000 :: u64) div 2) div unat (240000000 :: u64)
    = 73300775185" by simp
  have r45: "(1000000 * 2 ^ unat (45 :: u32) + unat (240000000 :: u64) div 2) div unat (240000000 :: u64)
    = 146601550370" by simp
  have r64: "(1000000 * 2 ^ unat (64 :: u32) + unat (240000000 :: u64) div 2) div unat (240000000 :: u64)
    = 76861433640456465" by simp
  have k45: "make 240000000 45 = Some \<lparr>k = 69740116730, shift = 45\<rparr>"
    and k64: "make 240000000 64 = Some \<lparr>k = 0, shift = 64\<rparr>"
    by (simp_all add: make_def)
  note at44 = make_shift_overflow [of 240000000 44]
  note at45 = make_shift_overflow [of 240000000 45]
  note at64 = make_shift_overflow [of 240000000 64]
  from at44 q44 f n44 have "\<exists>c. make 240000000 44 = Some c \<and> shift c = 44 \<and>
      unat (k c) = (1000000 * 2 ^ unat (44 :: u32) + unat (240000000 :: u64) div 2) div unat (240000000 :: u64)"
    by blast
  then have e44: "\<exists>c. make 240000000 44 = Some c \<and> shift c = 44 \<and> unat (k c) = 73300775185"
    by (simp only: r44)
  from at45 q45 f have "\<exists>c. make 240000000 45 = Some c \<and> shift c = 45 \<and>
      unat (k c) < (1000000 * 2 ^ unat (45 :: u32) + unat (240000000 :: u64) div 2) div unat (240000000 :: u64)"
    by blast
  then have e45: "\<exists>c. make 240000000 45 = Some c \<and> shift c = 45 \<and> unat (k c) < 146601550370"
    by (simp only: r45)
  from at64 q64 f have "\<exists>c. make 240000000 64 = Some c \<and> shift c = 64 \<and>
      unat (k c) < (1000000 * 2 ^ unat (64 :: u32) + unat (240000000 :: u64) div 2) div unat (240000000 :: u64)"
    by blast
  then have e64: "\<exists>c. make 240000000 64 = Some c \<and> shift c = 64 \<and> unat (k c) < 76861433640456465"
    by (simp only: r64)
  from q44 f n44 e44 q45 e45 k45 q64 e64 k64 show ?thesis by blast
qed

section \<open>Multiply and shift against division\<close>

text \<open>
  With \<open>m = c div D\<close>: when \<open>D * K\<close> is close enough to \<open>P\<close> that \<open>m\<close> multiples of the gap
  stay within one \<open>P\<close>, the quotient \<open>c * K div P\<close> is within one of \<open>m\<close>.
\<close>

lemma mul_shift_close:
  fixes c D K P :: nat
  assumes "0 < D" and "0 < P"
    and L: "(c div D) * P \<le> (c div D) * (D * K) + P"
    and U: "(c div D) * (D * K) + D * K < (c div D + 2) * P"
  shows "c div D \<le> (c * K) div P + 1" and "(c * K) div P \<le> c div D + 1"
proof -
  define m where "m = c div D"
  define r where "r = c mod D"
  have c: "c = m * D + r" by (simp add: m_def r_def)
  from assms(1) have "r \<le> D" by (simp add: r_def less_imp_le)
  then have rK: "r * K \<le> D * K" by (rule mult_le_mono1)
  have cK: "c * K = m * (D * K) + r * K" by (simp add: c algebra_simps)
  from U have U': "m * (D * K) + D * K < (m + 2) * P" by (simp only: m_def)
  from L have L': "m * P \<le> m * (D * K) + P" by (simp only: m_def)
  from U' rK cK have "c * K < (m + 2) * P" by linarith
  with assms(2) have "(c * K) div P < m + 2" by (simp add: div_less_iff_less_mult)
  then show "(c * K) div P \<le> c div D + 1" by (simp add: m_def)
  from L' cK have "m * P \<le> c * K + P" by linarith
  with assms(2) have "m \<le> (c * K + P) div P" by (simp add: less_eq_div_iff_mult_less_eq)
  also from assms(2) have "P \<noteq> 0" by simp
  then have "(c * K + P) div P = (c * K) div P + 1" by (rule div_add_self2)
  finally show "c div D \<le> (c * K) div P + 1" by (simp add: m_def)
qed

lemma to_us_32:
  "to_us \<lparr>k = kk, shift = 32\<rparr> cycles = drop_bit 32 (cycles * kk)"
  by (simp add: to_us_def)

lemma unat_to_us_32:
  assumes "unat cycles * unat kk < 2 ^ 64"
  shows "unat (drop_bit 32 (cycles * kk :: u64)) = (unat cycles * unat kk) div 2 ^ 32"
proof -
  have "unat (drop_bit 32 (cycles * kk)) = drop_bit 32 (unat (cycles * kk))"
    by (rule unat_drop_bit_eq)
  also have "\<dots> = unat (cycles * kk) div 2 ^ 32"
    by (rule drop_bit_eq_div)
  also from assms have "unat (cycles * kk) = unat cycles * unat kk"
    by (simp add: unat_mult_lem [THEN iffD1])
  finally show ?thesis .
qed

lemma close_80:
  fixes c :: nat
  assumes "c div 80 \<le> 10000000"
  shows "c div 80 \<le> (c * 53687091) div 2 ^ 32 + 1 \<and> (c * 53687091) div 2 ^ 32 \<le> c div 80 + 1"
  using assms mul_shift_close [of 80 "2 ^ 32" c 53687091] by simp

lemma close_160:
  fixes c :: nat
  assumes "c div 160 \<le> 10000000"
  shows "c div 160 \<le> (c * 26843546) div 2 ^ 32 + 1 \<and> (c * 26843546) div 2 ^ 32 \<le> c div 160 + 1"
  using assms mul_shift_close [of 160 "2 ^ 32" c 26843546] by simp

lemma close_240:
  fixes c :: nat
  assumes "c div 240 \<le> 10000000"
  shows "c div 240 \<le> (c * 17895697) div 2 ^ 32 + 1 \<and> (c * 17895697) div 2 ^ 32 \<le> c div 240 + 1"
  using assms mul_shift_close [of 240 "2 ^ 32" c 17895697] by simp

lemma to_us_close_word:
  fixes cycles kk dd :: u64
  assumes dd: "dd \<noteq> 0"
    and close: "unat cycles div unat dd \<le> (unat cycles * unat kk) div 2 ^ 32 + 1 \<and>
      (unat cycles * unat kk) div 2 ^ 32 \<le> unat cycles div unat dd + 1"
    and fits: "10000001 * unat dd * unat kk < 2 ^ 64"
    and us: "cycles div dd \<le> 10000000"
  shows "\<exists>t. to_us \<lparr>k = kk, shift = 32\<rparr> cycles = t \<and>
    \<bar>int (unat t) - int (unat (cycles div dd))\<bar> \<le> 1"
proof -
  from dd have pos: "0 < unat dd" by (simp add: unat_gt_0)
  from us have "unat cycles div unat dd \<le> 10000000"
    by (simp add: word_le_nat_alt unat_div)
  then have "unat cycles div unat dd < 10000001" by simp
  with pos have "unat cycles < 10000001 * unat dd"
    by (simp add: div_less_iff_less_mult)
  then have "unat cycles \<le> 10000001 * unat dd" by (rule less_imp_le)
  then have "unat cycles * unat kk \<le> 10000001 * unat dd * unat kk"
    by (rule mult_le_mono1)
  then have "unat cycles * unat kk < 2 ^ 64" using fits by (rule le_less_trans)
  then have "unat (drop_bit 32 (cycles * kk)) = (unat cycles * unat kk) div 2 ^ 32"
    by (rule unat_to_us_32)
  moreover have "unat (cycles div dd) = unat cycles div unat dd" by (rule unat_div)
  ultimately have "\<bar>int (unat (drop_bit 32 (cycles * kk))) - int (unat (cycles div dd))\<bar> \<le> 1"
    using close by linarith
  then show ?thesis by (simp only: to_us_32) blast
qed

text \<open>
  C6. For each of the frequencies 80 MHz, 160 MHz and 240 MHz and every cycle count whose
  division-based conversion \<open>cycles_to_us\<close> lies between 1 and \<open>10 ^ 7\<close> microseconds, the
  converter \<open>make freq 32\<close> exists and its \<open>to_us\<close> differs from \<open>cycles_to_us\<close> by at most 1.
\<close>

theorem to_us_close_to_cycles_to_us:
  assumes "freq = 80000000 \<or> freq = 160000000 \<or> freq = 240000000"
    and "cycles_to_us freq cycles = Some us"
    and "1 \<le> us" and "us \<le> 10000000"
  shows "\<exists>c t. make freq 32 = Some c \<and> to_us c cycles = t \<and>
    \<bar>int (unat t) - int (unat us)\<bar> \<le> 1"
proof -
  consider "freq = 80000000" | "freq = 160000000" | "freq = 240000000"
    using assms(1) by blast
  then show ?thesis
  proof cases
    case 1
    have mk: "make freq 32 = Some \<lparr>k = 53687091, shift = 32\<rparr>"
      by (simp add: 1 make_def)
    from assms(2) have us: "us = cycles div 80"
      by (simp add: 1 cycles_to_us_def)
    with assms(4) have le: "cycles div 80 \<le> 10000000" by simp
    then have "unat cycles div 80 \<le> 10000000"
      by (simp add: word_le_nat_alt unat_div)
    then have "unat cycles div unat (80 :: u64) \<le> (unat cycles * unat (53687091 :: u64)) div 2 ^ 32 + 1 \<and>
      (unat cycles * unat (53687091 :: u64)) div 2 ^ 32 \<le> unat cycles div unat (80 :: u64) + 1"
      using close_80 [of "unat cycles"] by simp
    then have "\<exists>t. to_us \<lparr>k = 53687091, shift = 32\<rparr> cycles = t \<and>
        \<bar>int (unat t) - int (unat (cycles div 80))\<bar> \<le> 1"
      using le by (intro to_us_close_word) simp_all
    with mk us show ?thesis by blast
  next
    case 2
    have mk: "make freq 32 = Some \<lparr>k = 26843546, shift = 32\<rparr>"
      by (simp add: 2 make_def)
    from assms(2) have us: "us = cycles div 160"
      by (simp add: 2 cycles_to_us_def)
    with assms(4) have le: "cycles div 160 \<le> 10000000" by simp
    then have "unat cycles div 160 \<le> 10000000"
      by (simp add: word_le_nat_alt unat_div)
    then have "unat cycles div unat (160 :: u64) \<le> (unat cycles * unat (26843546 :: u64)) div 2 ^ 32 + 1 \<and>
      (unat cycles * unat (26843546 :: u64)) div 2 ^ 32 \<le> unat cycles div unat (160 :: u64) + 1"
      using close_160 [of "unat cycles"] by simp
    then have "\<exists>t. to_us \<lparr>k = 26843546, shift = 32\<rparr> cycles = t \<and>
        \<bar>int (unat t) - int (unat (cycles div 160))\<bar> \<le> 1"
      using le by (intro to_us_close_word) simp_all
    with mk us show ?thesis by blast
  next
    case 3
    have mk: "make freq 32 = Some \<lparr>k = 17895697, shift = 32\<rparr>"
      by (simp add: 3 make_def)
    from assms(2) have us: "us = cycles div 240"
      by (simp add: 3 cycles_to_us_def)
    with assms(4) have le: "cycles div 240 \<le> 10000000" by simp
    then have "unat cycles div 240 \<le> 10000000"
      by (simp add: word_le_nat_alt unat_div)
    then have "unat cycles div unat (240 :: u64) \<le> (unat cycles * unat (17895697 :: u64)) div 2 ^ 32 + 1 \<and>
      (unat cycles * unat (17895697 :: u64)) div 2 ^ 32 \<le> unat cycles div unat (240 :: u64) + 1"
      using close_240 [of "unat cycles"] by simp
    then have "\<exists>t. to_us \<lparr>k = 17895697, shift = 32\<rparr> cycles = t \<and>
        \<bar>int (unat t) - int (unat (cycles div 240))\<bar> \<le> 1"
      using le by (intro to_us_close_word) simp_all
    with mk us show ?thesis by blast
  qed
qed

text \<open>One second at 240 MHz, where the two conversions do differ by 1.\<close>

theorem to_us_close_to_cycles_to_us_witness:
  "((240000000 :: u64) = 80000000 \<or> (240000000 :: u64) = 160000000 \<or> (240000000 :: u64) = 240000000) \<and>
   cycles_to_us 240000000 240000000 = Some 1000000 \<and>
   (1 :: u64) \<le> 1000000 \<and> (1000000 :: u64) \<le> 10000000 \<and>
   to_us \<lparr>k = 17895697, shift = 32\<rparr> 240000000 = 999999 \<and>
   (\<exists>c t. make 240000000 32 = Some c \<and> to_us c 240000000 = t \<and>
     \<bar>int (unat t) - int (unat (1000000 :: u64))\<bar> \<le> 1)"
proof -
  have f: "(240000000 :: u64) = 80000000 \<or> (240000000 :: u64) = 160000000 \<or>
      (240000000 :: u64) = 240000000" by simp
  have us: "cycles_to_us 240000000 240000000 = Some 1000000"
    by (simp add: cycles_to_us_def)
  have lo: "(1 :: u64) \<le> 1000000" and hi: "(1000000 :: u64) \<le> 10000000" by simp_all
  have t: "to_us \<lparr>k = 17895697, shift = 32\<rparr> 240000000 = 999999"
    by (simp add: to_us_def drop_bit_eq_div)
  from f us lo hi t to_us_close_to_cycles_to_us [OF f us lo hi] show ?thesis by blast
qed

section \<open>The division-based conversions\<close>

lemma cycles_to_us_Some_iff: "cycles_to_us freq cycles \<noteq> None \<longleftrightarrow> 1000000 \<le> freq"
proof -
  have "freq div 1000000 = 0 \<longleftrightarrow> unat freq div 1000000 = 0"
    by (simp add: word_unat_eq_iff unat_div)
  also have "\<dots> \<longleftrightarrow> unat freq < 1000000" by arith
  also have "\<dots> \<longleftrightarrow> \<not> 1000000 \<le> freq" by (simp add: word_le_nat_alt not_le)
  finally show ?thesis by (simp add: cycles_to_us_def)
qed

lemma cycles_to_ms_Some_iff: "cycles_to_ms freq cycles \<noteq> None \<longleftrightarrow> 1000 \<le> freq"
proof -
  have "freq div 1000 = 0 \<longleftrightarrow> unat freq div 1000 = 0"
    by (simp add: word_unat_eq_iff unat_div)
  also have "\<dots> \<longleftrightarrow> unat freq < 1000" by arith
  also have "\<dots> \<longleftrightarrow> \<not> 1000 \<le> freq" by (simp add: word_le_nat_alt not_le)
  finally show ?thesis by (simp add: cycles_to_ms_def)
qed

lemma MHz_above_kHz: "(1000000 :: u64) \<le> freq \<Longrightarrow> 1000 \<le> freq"
  by (simp add: word_le_nat_alt)







lemma us_then_ms_nat:
  fixes x n :: nat
  shows "x div (1000000 * n div 1000) = (x div (1000000 * n div 1000000)) div 1000"
proof -
  have "1000000 * n div 1000 = n * 1000" by simp
  moreover have "1000000 * n div 1000000 = n" by simp
  ultimately show ?thesis by (simp only: div_mult2_eq)
qed

text \<open>
  For a frequency that is a whole number of MHz the two divisors are \<open>n\<close> and \<open>1000 * n\<close>,
  and dividing by \<open>n\<close> and then by 1000 is dividing by \<open>1000 * n\<close>.
\<close>

lemma ms_is_us_div_1000_whole_MHz:
  assumes "1000000 \<le> freq" and "freq mod 1000000 = 0"
  shows "\<exists>us ms. cycles_to_us freq x = Some us \<and> cycles_to_ms freq x = Some ms \<and> ms = us div 1000"
proof -
  from assms(2) have "unat freq mod 1000000 = 0"
    by (simp add: word_unat_eq_iff unat_mod)
  then obtain n where n: "unat freq = 1000000 * n" by (auto simp: mod_eq_0_iff_dvd)
  have "unat (x div (freq div 1000)) = unat x div (unat freq div 1000)"
    by (simp add: unat_div)
  also have "\<dots> = (unat x div (unat freq div 1000000)) div 1000"
    by (simp only: n us_then_ms_nat)
  also have "\<dots> = unat ((x div (freq div 1000000)) div 1000)"
    by (simp add: unat_div)
  finally have eq: "x div (freq div 1000) = (x div (freq div 1000000)) div 1000"
    by (simp only: word_unat_eq_iff)
  from assms(1) have "cycles_to_us freq x = Some (x div (freq div 1000000))"
    using cycles_to_us_Some_iff [of freq x]
    by (simp add: cycles_to_us_def split: if_splits)
  moreover from assms(1) have "1000 \<le> freq" by (rule MHz_above_kHz)
  then have "cycles_to_ms freq x = Some (x div (freq div 1000))"
    using cycles_to_ms_Some_iff [of freq x]
    by (simp add: cycles_to_ms_def split: if_splits)
  ultimately show ?thesis using eq by simp
qed

text \<open>
  C9. Under the configured frequency constant, the 240 MHz of the header, \<open>cycles_to_ms x\<close>
  is \<open>cycles_to_us x\<close> divided by 1000 for every 64-bit cycle count \<open>x\<close>: the nested and
  the direct integer division agree exactly. The same holds for every frequency that is
  a whole number of MHz.
\<close>

theorem cycles_to_ms_is_us_div_1000:
  "(\<exists>us ms. cycles_to_us FASTTIME_FREQ_HZ x = Some us \<and>
      cycles_to_ms FASTTIME_FREQ_HZ x = Some ms \<and> ms = us div 1000) \<and>
   (1000000 \<le> freq \<and> freq mod 1000000 = 0 \<longrightarrow>
      (\<exists>us ms. cycles_to_us freq x = Some us \<and> cycles_to_ms freq x = Some ms \<and>
        ms = us div 1000))"
proof (intro conjI impI)
  have "1000000 \<le> FASTTIME_FREQ_HZ" and "FASTTIME_FREQ_HZ mod 1000000 = 0"
    by (simp_all add: FASTTIME_FREQ_HZ_def)
  then show "\<exists>us ms. cycles_to_us FASTTIME_FREQ_HZ x = Some us \<and>
      cycles_to_ms FASTTIME_FREQ_HZ x = Some ms \<and> ms = us div 1000"
    by (rule ms_is_us_div_1000_whole_MHz)
next
  assume "1000000 \<le> freq \<and> freq mod 1000000 = 0"
  then have "1000000 \<le> freq" and "freq mod 1000000 = 0" by simp_all
  then show "\<exists>us ms. cycles_to_us freq x = Some us \<and> cycles_to_ms freq x = Some ms \<and>
      ms = us div 1000"
    by (rule ms_is_us_div_1000_whole_MHz)
qed

text \<open>123456789 cycles at the fallback frequency and at 80 MHz.\<close>

theorem cycles_to_ms_is_us_div_1000_witness:
  "cycles_to_us FASTTIME_FREQ_HZ 123456789 = Some 514403 \<and>
   cycles_to_ms FASTTIME_FREQ_HZ 123456789 = Some 514 \<and>
   (\<exists>us ms. cycles_to_us FASTTIME_FREQ_HZ 123456789 = Some us \<and>
      cycles_to_ms FASTTIME_FREQ_HZ 123456789 = Some ms \<and> ms = us div 1000) \<and>
   (1000000 :: u64) \<le> 80000000 \<and> (80000000 :: u64) mod 1000000 = 0 \<and>
   cycles_to_us 80000000 123456789 = Some 1543209 \<and>
   cycles_to_ms 80000000 123456789 = Some 1543 \<and>
   (\<exists>us ms. cycles_to_us 80000000 123456789 = Some us \<and>
      cycles_to_ms 80000000 123456789 = Some ms \<and> ms = us div 1000)"
proof -
  have f: "(1000000 :: u64) \<le> 80000000" and m: "(80000000 :: u64) mod 1000000 = 0"
    by simp_all
  have v: "cycles_to_us FASTTIME_FREQ_HZ 123456789 = Some 514403"
    "cycles_to_ms FASTTIME_FREQ_HZ 123456789 = Some 514"
    "cycles_to_us 80000000 123456789 = Some 1543209"
    "cycles_to_ms 80000000 123456789 = Some 1543"
    by (simp_all add: FASTTIME_FREQ_HZ_def cycles_to_us_def cycles_to_ms_def)
  note at = cycles_to_ms_is_us_div_1000 [of 123456789 80000000]
  have a: "\<exists>us ms. cycles_to_us FASTTIME_FREQ_HZ 123456789 = Some us \<and>
      cycles_to_ms FASTTIME_FREQ_HZ 123456789 = Some ms \<and> ms = us div 1000"
    by (rule at [THEN conjunct1])
  have b: "\<exists>us ms. cycles_to_us 80000000 123456789 = Some us \<and>
      cycles_to_ms 80000000 123456789 = Some ms \<and> ms = us div 1000"
    by (rule at [THEN conjunct2, THEN mp]) (intro conjI f m)
  show ?thesis by (intro conjI) (rule v f m a b)+
qed

end
